theory Spec2Isabelle
  imports Complex_Main
begin

section \<open>Data model (src/plush-ai-app/src/types/index.ts)\<close>

text \<open>
  A number is a real. The numeric fields of an operation are stored and compared, never
  computed with. The geometry functions round every arithmetic result to a double (see
  the section on double precision arithmetic); the shader is written in exact
  arithmetic. A \<open>Point\<close> is the pair of its \<open>x\<close> and \<open>y\<close> fields.
\<close>

type_synonym Point = "real \<times> real"

record Stroke =
  points :: "Point list"
  stroke_size :: real
  stroke_strength :: real
  softness :: real

datatype BodyParamKey = waistTop | waistMid | belly | hips | bodySlim

datatype FaceParamKey =
  eyeSize | eyeSpacing | noseWidth | lipVolume | jawSlim | chinLength | faceSlim | skinSmooth

datatype TransformKind = crop | rotate_kind | flipH | flipV

datatype BackgroundMode = remove | blur | replace

text \<open>The \<open>type\<close> tag of an operation.\<close>

datatype OpType =
  liquify | magnifier | twirl | bodyParam | faceParam | inpaint | background | transform | color

text \<open>
  The tagged union \<open>Operation\<close>; optional fields are options, and the untyped
  \<open>params\<close> of a transform is kept as its serialised text.
\<close>

datatype Operation =
    Liquify (strokes: "Stroke list") (freezeMaskUri: "string option")
  | Magnifier Point real real
  | Twirl Point real real
  | BodyParam BodyParamKey real
  | FaceParam FaceParamKey real
  | Inpaint "Point list"
  | Background BackgroundMode "real option" "string option"
  | Transform TransformKind "string option"
  | Color "real option" "real option" "real option" "real option"

fun op_type :: "Operation \<Rightarrow> OpType" where
  "op_type (Liquify _ _) = liquify"
| "op_type (Magnifier _ _ _) = magnifier"
| "op_type (Twirl _ _ _) = twirl"
| "op_type (BodyParam _ _) = bodyParam"
| "op_type (FaceParam _ _) = faceParam"
| "op_type (Inpaint _) = inpaint"
| "op_type (Background _ _ _) = background"
| "op_type (Transform _ _) = transform"
| "op_type (Color _ _ _ _) = color"

section \<open>The operation stack (OperationStackManager)\<close>

text \<open>
  The three arrays of the class. An array grows at its end: \<open>push\<close> appends,
  \<open>pop\<close> takes the last element and \<open>shift\<close> the first. The change listener is
  called with a copy of \<open>operations\<close> after the state has been updated and is not part
  of the state.
\<close>

record OperationStackManager =
  operations :: "Operation list"
  undoStack :: "Operation list list"
  redoStack :: "Operation list list"

definition maxStackSize :: nat where
  "maxStackSize = 50"

definition constructor :: "Operation list \<Rightarrow> OperationStackManager" where
  "constructor initialOps = \<lparr>operations = initialOps, undoStack = [], redoStack = []\<rparr>"

text \<open>\<open>stack.shift()\<close> when the stack has grown beyond \<open>maxStackSize\<close>.\<close>

definition shift_over :: "'a list \<Rightarrow> 'a list" where
  "shift_over st = (if length st > maxStackSize then tl st else st)"

definition addOperation :: "Operation \<Rightarrow> OperationStackManager \<Rightarrow> OperationStackManager" where
  "addOperation operation s =
     s\<lparr>operations := operations s @ [operation],
       undoStack := shift_over (undoStack s @ [[operation]]),
       redoStack := []\<rparr>"

definition addOperations :: "Operation list \<Rightarrow> OperationStackManager \<Rightarrow> OperationStackManager" where
  "addOperations ops s =
     s\<lparr>operations := operations s @ ops,
       undoStack := shift_over (undoStack s @ [ops]),
       redoStack := []\<rparr>"

definition canUndo :: "OperationStackManager \<Rightarrow> bool" where
  "canUndo s = (length (undoStack s) > 0)"

definition canRedo :: "OperationStackManager \<Rightarrow> bool" where
  "canRedo s = (length (redoStack s) > 0)"

text \<open>
  \<open>Array.prototype.splice(start, deleteCount)\<close>: a negative start counts from the
  end, both arguments are clamped to the array. The result is the removed elements and
  the array that is left.
\<close>

definition splice :: "'a list \<Rightarrow> int \<Rightarrow> int \<Rightarrow> 'a list \<times> 'a list" where
  "splice xs start deleteCount =
     (let len = int (length xs);
          actualStart = (if start < 0 then max (len + start) 0 else min start len);
          actualDeleteCount = min (max deleteCount 0) (len - actualStart)
      in (take (nat actualDeleteCount) (drop (nat actualStart) xs),
          take (nat actualStart) xs @ drop (nat actualStart + nat actualDeleteCount) xs))"

text \<open>\<open>undo\<close> and \<open>redo\<close> return \<open>null\<close> (here \<open>None\<close>) or the group moved.\<close>

definition undo :: "OperationStackManager \<Rightarrow> Operation list option \<times> OperationStackManager" where
  "undo s =
     (if \<not> canUndo s then (None, s)
      else
        let opsToUndo = last (undoStack s);
            undoCount = length opsToUndo;
            (removedOps, rest) =
               splice (operations s) (int (length (operations s)) - int undoCount) (int undoCount)
        in (Some removedOps,
            s\<lparr>operations := rest,
              undoStack := butlast (undoStack s),
              redoStack := shift_over (redoStack s @ [removedOps])\<rparr>))"

definition redo :: "OperationStackManager \<Rightarrow> Operation list option \<times> OperationStackManager" where
  "redo s =
     (if \<not> canRedo s then (None, s)
      else
        let opsToRedo = last (redoStack s)
        in (Some opsToRedo,
            s\<lparr>operations := operations s @ opsToRedo,
              undoStack := undoStack s @ [opsToRedo],
              redoStack := butlast (redoStack s)\<rparr>))"

definition replaceOperationsOfType ::
  "OpType \<Rightarrow> Operation \<Rightarrow> OperationStackManager \<Rightarrow> OperationStackManager" where
  "replaceOperationsOfType ty operation s =
     s\<lparr>operations := filter (\<lambda>op. op_type op \<noteq> ty) (operations s) @ [operation],
       undoStack := undoStack s @ [[operation]],
       redoStack := []\<rparr>"

definition resetTool :: "OpType \<Rightarrow> OperationStackManager \<Rightarrow> OperationStackManager" where
  "resetTool toolType s =
     (let toolOps = filter (\<lambda>op. op_type op = toolType) (operations s)
      in if length toolOps > 0
         then s\<lparr>operations := filter (\<lambda>op. op_type op \<noteq> toolType) (operations s),
                undoStack := undoStack s @ [toolOps],
                redoStack := []\<rparr>
         else s)"

text \<open>A run of \<open>addOperation\<close> calls, and \<open>undo\<close> called a number of times.\<close>

definition addAll :: "Operation list \<Rightarrow> OperationStackManager \<Rightarrow> OperationStackManager" where
  "addAll ops s = foldl (\<lambda>st operation. addOperation operation st) s ops"

fun undo_times :: "nat \<Rightarrow> OperationStackManager \<Rightarrow> OperationStackManager" where
  "undo_times 0 s = s"
| "undo_times (Suc n) s = undo_times n (snd (undo s))"

section \<open>Coalescing (optimizeOperations)\<close>

text \<open>
  A JavaScript \<open>Map\<close> iterates in the order in which its keys were first inserted, and
  \<open>set\<close> on a key that is present replaces the value where it stands. It is modelled
  as a list of entries.
\<close>

primrec Map_set :: "('k \<times> 'v) list \<Rightarrow> 'k \<Rightarrow> 'v \<Rightarrow> ('k \<times> 'v) list" where
  "Map_set [] k v = [(k, v)]"
| "Map_set (e # es) k v = (if fst e = k then (k, v) # es else e # Map_set es k v)"

definition Map_has :: "('k \<times> 'v) list \<Rightarrow> 'k \<Rightarrow> bool" where
  "Map_has m k = (map_of m k \<noteq> None)"

text \<open>
  The body of the first loop: the group of the operation's type is created when absent,
  then the operation is pushed on it. The key is the type tag itself.
\<close>

definition group_step ::
  "(OpType \<times> Operation list) list \<Rightarrow> Operation \<Rightarrow> (OpType \<times> Operation list) list" where
  "group_step typeGroups op =
     (let key = op_type op;
          typeGroups1 = (if \<not> Map_has typeGroups key then Map_set typeGroups key [] else typeGroups)
      in case map_of typeGroups1 key of
           Some ops \<Rightarrow> Map_set typeGroups1 key (ops @ [op])
         | None \<Rightarrow> typeGroups1)"

text \<open>
  The \<open>key\<close> field, which only the two parametric kinds have. The two key types are
  disjoint sets of strings, so a key is tagged with the type it belongs to.
\<close>

datatype ParamKey = BodyKey BodyParamKey | FaceKey FaceParamKey

fun param_key :: "Operation \<Rightarrow> ParamKey option" where
  "param_key (BodyParam k v) = Some (BodyKey k)"
| "param_key (FaceParam k v) = Some (FaceKey k)"
| "param_key _ = None"

definition paramMap_step ::
  "(ParamKey \<times> Operation) list \<Rightarrow> Operation \<Rightarrow> (ParamKey \<times> Operation) list" where
  "paramMap_step paramMap op =
     (if op_type op = bodyParam \<or> op_type op = faceParam
      then (case param_key op of Some k \<Rightarrow> Map_set paramMap k op | None \<Rightarrow> paramMap)
      else paramMap)"

text \<open>
  The body of the second loop, for one group: what it pushes on \<open>optimized\<close>. Reading
  \<open>ops[0].type\<close> of an empty group throws, which is the result \<open>None\<close>.
\<close>

definition optimizeGroup :: "Operation list \<Rightarrow> Operation list option" where
  "optimizeGroup ops =
     (case ops of
        [] \<Rightarrow> None
      | first # _ \<Rightarrow>
          if length ops = 1 then Some [first]
          else
            (case op_type first of
               liquify \<Rightarrow>
                 (let liquifyOps = filter (\<lambda>op. op_type op = liquify) ops;
                      allStrokes = concat (map strokes liquifyOps)
                  in if length allStrokes > 0
                     then Some [Liquify allStrokes (freezeMaskUri (last liquifyOps))]
                     else Some [])
             | bodyParam \<Rightarrow> Some (map snd (foldl paramMap_step [] ops))
             | faceParam \<Rightarrow> Some (map snd (foldl paramMap_step [] ops))
             | color \<Rightarrow> Some [last ops]
             | _ \<Rightarrow> Some ops))"

fun optimize_loop ::
  "(OpType \<times> Operation list) list \<Rightarrow> Operation list \<Rightarrow> Operation list option" where
  "optimize_loop [] optimized = Some optimized"
| "optimize_loop ((key, ops) # rest) optimized =
     (case optimizeGroup ops of
        None \<Rightarrow> None
      | Some out \<Rightarrow> optimize_loop rest (optimized @ out))"

text \<open>Only \<open>operations\<close> is assigned; the two stacks are not mentioned by the method.\<close>

definition optimizeOperations :: "OperationStackManager \<Rightarrow> OperationStackManager option" where
  "optimizeOperations s =
     (case optimize_loop (foldl group_step [] (operations s)) [] of
        None \<Rightarrow> None
      | Some optimized \<Rightarrow> Some (s\<lparr>operations := optimized\<rparr>))"

text \<open>The last element of a list as a list of at most one element.\<close>

definition last_only :: "'a list \<Rightarrow> 'a list" where
  "last_only xs = (if xs = [] then [] else [last xs])"

section \<open>Double precision arithmetic\<close>

text \<open>
  \<open>number\<close> in TypeScript and \<open>CGFloat\<close> in Swift are IEEE binary64. Every arithmetic
  operation returns the double nearest to the exact result, a tie going to the double
  with an even significand. \<open>fl\<close> is this rounding on the reals, with 53 significant
  bits and no bound on the exponent: overflow, subnormal numbers and NaN are not modelled.
  \<open>unit_roundoff\<close> is the largest relative error of one rounding.
\<close>

definition round_ties_even :: "real \<Rightarrow> int" where
  "round_ties_even m =
     (let f = \<lfloor>m\<rfloor>; r = m - of_int f
      in if r < 1 / 2 then f else if r > 1 / 2 then f + 1 else if even f then f else f + 1)"

definition fl :: "real \<Rightarrow> real" where
  "fl v = (if v = 0 then 0
           else let k = \<lfloor>log 2 \<bar>v\<bar>\<rfloor> - 52
                in of_int (round_ties_even (v / 2 powi k)) * 2 powi k)"

definition unit_roundoff :: real where
  "unit_roundoff = 1 / 2 ^ 53"

section \<open>Aspect fit and coordinate mapping\<close>

record Size =
  width :: real
  height :: real

record CGRect =
  origin :: Point
  rect_size :: Size

text \<open>\<open>Math.round\<close>: the nearest integer, a half rounded up. It is applied to a double
  and its result is an integer, so it needs no rounding of its own.\<close>

definition Math_round :: "real \<Rightarrow> real" where
  "Math_round v = of_int \<lfloor>v + 1 / 2\<rfloor>"

text \<open>\<open>ImageUtils.calculateAspectRatioFit\<close> (imageUtils.ts).\<close>

definition calculateAspectRatioFit :: "real \<Rightarrow> real \<Rightarrow> real \<Rightarrow> real \<Rightarrow> Size" where
  "calculateAspectRatioFit srcWidth srcHeight maxWidth maxHeight =
     (let ratio = min (fl (maxWidth / srcWidth)) (fl (maxHeight / srcHeight))
      in \<lparr>width = Math_round (fl (srcWidth * ratio)),
          height = Math_round (fl (srcHeight * ratio))\<rparr>)"

text \<open>\<open>ImageWarpView.aspectFitRect\<close> (ImageWarpModule.swift).\<close>

definition aspectFitRect :: "Size \<Rightarrow> Size \<Rightarrow> CGRect" where
  "aspectFitRect imageSize container =
     (let rw = fl (width container / width imageSize);
          rh = fl (height container / height imageSize);
          scale = min rw rh;
          w = fl (width imageSize * scale);
          h = fl (height imageSize * scale);
          x = fl (fl (width container - w) / 2);
          y = fl (fl (height container - h) / 2)
      in \<lparr>origin = (x, y), rect_size = \<lparr>width = w, height = h\<rparr>\<rparr>)"

text \<open>
  \<open>CGRect.width\<close> and \<open>CGRect.height\<close>, as \<open>exportJPEG\<close> reads them, are those of
  the standardised rectangle, hence absolute values.
\<close>

definition rect_width :: "CGRect \<Rightarrow> real" where
  "rect_width r = \<bar>width (rect_size r)\<bar>"

definition rect_height :: "CGRect \<Rightarrow> real" where
  "rect_height r = \<bar>height (rect_size r)\<bar>"




definition exportJPEG_radius :: "Size \<Rightarrow> CGRect \<Rightarrow> real \<Rightarrow> real" where
  "exportJPEG_radius extent fit radiusPx =
     (let sx = fl (width extent / rect_width fit);
          sy = fl (height extent / rect_height fit)
      in fl (radiusPx * max sx sy))"

text \<open>
  Sizes of ordinary magnitude: with every dimension between 2 to the power -200 and
  2 to the power 200 no quotient, product or difference computed below leaves the range in
  which binary64 has its full 53 bits, so that \<open>fl\<close> is the rounding of the hardware.
\<close>

definition ordinary_size :: "Size \<Rightarrow> bool" where
  "ordinary_size sz =
     (1 / 2 ^ 200 \<le> width sz \<and> width sz \<le> 2 ^ 200 \<and>
      1 / 2 ^ 200 \<le> height sz \<and> height sz \<le> 2 ^ 200)"

section \<open>The bulge shader (MagnifierToolGL.tsx)\<close>

type_synonym vec2 = "real \<times> real"

definition vec_sub :: "vec2 \<Rightarrow> vec2 \<Rightarrow> vec2" where
  "vec_sub a b = (fst a - fst b, snd a - snd b)"

definition vec_mul :: "vec2 \<Rightarrow> vec2 \<Rightarrow> vec2" where
  "vec_mul a b = (fst a * fst b, snd a * snd b)"

definition vec_div :: "vec2 \<Rightarrow> vec2 \<Rightarrow> vec2" where
  "vec_div a b = (fst a / fst b, snd a / snd b)"

definition vec_scale :: "vec2 \<Rightarrow> real \<Rightarrow> vec2" where
  "vec_scale a k = (fst a * k, snd a * k)"

definition vec_length :: "vec2 \<Rightarrow> real" where
  "vec_length a = sqrt (fst a * fst a + snd a * snd a)"

text \<open>The two branches that compute \<open>amount\<close> from \<open>percent\<close>.\<close>

definition bulge_amount :: "real \<Rightarrow> real \<Rightarrow> real" where
  "bulge_amount strength percent =
     (if strength > 0
      then (let amount = 1 - percent; amount = amount * amount in amount * strength)
      else (let amount = percent; amount = 1 - amount * amount; amount = amount * \<bar>strength\<bar>
            in - amount))"

text \<open>
  \<open>main\<close> of the fragment shader: the texture coordinate that is handed to
  \<open>texture2D\<close> for the fragment at \<open>uv\<close>. The shader itself does not clamp it.
\<close>

definition bulge_main :: "vec2 \<Rightarrow> real \<Rightarrow> real \<Rightarrow> vec2 \<Rightarrow> vec2 \<Rightarrow> vec2" where
  "bulge_main center radius strength resolution uv =
     (let coord = vec_mul uv resolution;
          toCenter = vec_sub center coord;
          distance = vec_length toCenter;
          coord = (if distance < radius
                   then (let percent = distance / radius;
                             amount = bulge_amount strength percent
                         in vec_sub coord (vec_scale toCenter amount))
                   else coord)
      in vec_div coord resolution)"

section \<open>Undo on an empty history\<close>

text \<open>
  C2. Whenever the undo stack is empty, \<open>undo\<close> returns \<open>null\<close> and the manager is
  left exactly as it was: operations, undo stack and redo stack are all unchanged.
\<close>

theorem undo_empty_noop:
  "undoStack s = [] \<Longrightarrow> undo s = (None, s)"
  by (simp add: undo_def canUndo_def)

theorem undo_empty_noop_witness:
  "undoStack (constructor [Twirl (1, 2) 3 4]) = []
   \<and> undo (constructor [Twirl (1, 2) 3 4]) = (None, constructor [Twirl (1, 2) 3 4])"
  using undo_empty_noop [of "constructor [Twirl (1, 2) 3 4]"]
  by (simp add: constructor_def)

section \<open>Resetting a tool that has no operation\<close>

text \<open>
  C10. \<open>resetTool\<close> for a type of which the log holds no operation changes nothing:
  the manager after the call is the manager before it, so the redo stack is kept and no
  group is pushed on the undo stack.
\<close>

theorem resetTool_absent_unchanged:
  "filter (\<lambda>op. op_type op = toolType) (operations s) = [] \<Longrightarrow> resetTool toolType s = s"
  by (simp add: resetTool_def)

theorem resetTool_absent_unchanged_witness:
  "filter (\<lambda>op. op_type op = twirl)
     (operations \<lparr>operations = [BodyParam hips 2], undoStack = [[BodyParam hips 2]],
                  redoStack = [[Color None None None None]]\<rparr>) = []
   \<and> resetTool twirl \<lparr>operations = [BodyParam hips 2], undoStack = [[BodyParam hips 2]],
                       redoStack = [[Color None None None None]]\<rparr>
     = \<lparr>operations = [BodyParam hips 2], undoStack = [[BodyParam hips 2]],
        redoStack = [[Color None None None None]]\<rparr>"
  using resetTool_absent_unchanged
    [of twirl "\<lparr>operations = [BodyParam hips 2], undoStack = [[BodyParam hips 2]],
                redoStack = [[Color None None None None]]\<rparr>"]
  by simp

section \<open>Undo followed by redo\<close>

lemma shift_over_short: "length st \<le> maxStackSize \<Longrightarrow> shift_over st = st"
  by (simp add: shift_over_def)

lemma shift_over_snoc:
  "shift_over (us @ [g]) = (if length us \<ge> maxStackSize then tl us @ [g] else us @ [g])"
  by (cases us) (auto simp: shift_over_def maxStackSize_def)

lemma splice_last_group:
  "splice (xs @ g) (int (length (xs @ g)) - int (length g)) (int (length g)) = (g, xs)"
  by (simp add: splice_def Let_def)

lemma undo_after_push:
  assumes "undoStack s = us @ [g]" "operations s = xs @ g"
  shows "undo s = (Some g, s\<lparr>operations := xs, undoStack := us,
                             redoStack := shift_over (redoStack s @ [g])\<rparr>)"
proof -
  have "splice (operations s) (int (length (operations s)) - int (length g)) (int (length g)) = (g, xs)"
    using splice_last_group [of xs g] assms(2) by simp
  then show ?thesis
    using assms(1) by (simp add: undo_def canUndo_def Let_def)
qed

lemma redo_after_push:
  assumes "redoStack s = rs @ [g]"
  shows "redo s = (Some g, s\<lparr>operations := operations s @ g, undoStack := undoStack s @ [g],
                             redoStack := rs\<rparr>)"
  using assms by (simp add: redo_def canRedo_def Let_def)

lemma undoStack_addOperation_snoc:
  "\<exists>us. undoStack (addOperation operation s) = us @ [[operation]]"
  by (simp add: addOperation_def shift_over_snoc)

lemma undo_redo_addOperation:
  "operations (snd (redo (snd (undo (addOperation operation s))))) = operations (addOperation operation s)"
proof -
  let ?t = "addOperation operation s"
  obtain us where us: "undoStack ?t = us @ [[operation]]"
    using undoStack_addOperation_snoc by blast
  have ops: "operations ?t = operations s @ [operation]"
    by (simp add: addOperation_def)
  have rs: "redoStack ?t = []"
    by (simp add: addOperation_def)
  have u: "undo ?t = (Some [operation], ?t\<lparr>operations := operations s, undoStack := us,
                             redoStack := [[operation]]\<rparr>)"
    using undo_after_push [OF us ops] rs by (simp add: shift_over_def maxStackSize_def)
  show ?thesis
    unfolding u
    by (simp add: redo_after_push [where rs = "[]" and g = "[operation]"] ops)
qed

lemma addAll_snoc: "addAll (ops @ [operation]) s = addOperation operation (addAll ops s)"
  by (simp add: addAll_def)

text \<open>
  C1. In every state reached from a new manager by a sequence of \<open>addOperation\<close> calls,
  \<open>undo\<close> immediately followed by \<open>redo\<close> gives back the operations sequence that was
  there before the undo: the same elements in the same order.
\<close>

theorem undo_then_redo_restores:
  "operations (snd (redo (snd (undo (addAll ops (constructor initialOps))))))
     = operations (addAll ops (constructor initialOps))"
proof (cases ops rule: rev_cases)
  case Nil
  then show ?thesis
    by (simp add: addAll_def constructor_def undo_def redo_def canUndo_def canRedo_def)
next
  case (snoc ys operation)
  then show ?thesis
    by (simp only: addAll_snoc undo_redo_addOperation)
qed

section \<open>The capacity of the undo stack\<close>

lemma operations_addAll: "operations (addAll ops s) = operations s @ ops"
  by (induction ops rule: rev_induct) (simp_all add: addAll_def addOperation_def)

lemma redoStack_addAll: "redoStack (addAll ops s) = (if ops = [] then redoStack s else [])"
  by (induction ops rule: rev_induct) (simp_all add: addAll_def addOperation_def)

lemma shift_over_window:
  "shift_over (drop (length xs - maxStackSize) xs @ [g])
     = drop (length (xs @ [g]) - maxStackSize) (xs @ [g])"
proof (cases "length xs \<ge> maxStackSize")
  case True
  define k where "k = length xs - maxStackSize"
  have k: "k < length xs" "length xs - k = maxStackSize" "Suc (length xs) - maxStackSize = Suc k"
    using True by (simp_all add: k_def maxStackSize_def)
  have "shift_over (drop k xs @ [g]) = tl (drop k xs) @ [g]"
    using k by (simp add: shift_over_snoc)
  also have "\<dots> = drop (Suc k) xs @ [g]"
    by (simp add: tl_drop drop_Suc)
  also have "\<dots> = drop (Suc k) (xs @ [g])"
    using k(1) by simp
  finally show ?thesis
    using k(3) by (simp add: k_def del: drop_append)
next
  case False
  then show ?thesis
    by (simp add: shift_over_short)
qed

lemma undoStack_addOperation:
  "undoStack (addOperation operation s) = shift_over (undoStack s @ [[operation]])"
  by (simp add: addOperation_def)

lemma undoStack_addAll:
  "length (undoStack s) \<le> maxStackSize \<Longrightarrow>
   undoStack (addAll ops s) =
     drop (length (undoStack s @ map (\<lambda>op. [op]) ops) - maxStackSize)
          (undoStack s @ map (\<lambda>op. [op]) ops)"
proof (induction ops rule: rev_induct)
  case Nil
  then show ?case by (simp add: addAll_def)
next
  case (snoc operation ops)
  let ?all = "undoStack s @ map (\<lambda>op. [op]) ops"
  have ih: "undoStack (addAll ops s) = drop (length ?all - maxStackSize) ?all"
    using snoc by simp
  have "undoStack (addAll (ops @ [operation]) s)
          = shift_over (drop (length ?all - maxStackSize) ?all @ [[operation]])"
    by (simp only: addAll_snoc undoStack_addOperation ih)
  also have "\<dots> = drop (length (?all @ [[operation]]) - maxStackSize) (?all @ [[operation]])"
    by (rule shift_over_window)
  finally show ?case by simp
qed

lemma undo_times_singletons:
  "undoStack s = map (\<lambda>op. [op]) gs \<Longrightarrow> operations s = pre @ gs \<Longrightarrow>
   length (redoStack s) + length gs \<le> maxStackSize \<Longrightarrow>
   undo_times (length gs) s =
     s\<lparr>operations := pre, undoStack := [], redoStack := redoStack s @ map (\<lambda>op. [op]) (rev gs)\<rparr>"
proof (induction gs arbitrary: s rule: rev_induct)
  case Nil
  then show ?case by simp
next
  case (snoc g gs)
  have u: "undo s = (Some [g], s\<lparr>operations := pre @ gs, undoStack := map (\<lambda>op. [op]) gs,
                             redoStack := shift_over (redoStack s @ [[g]])\<rparr>)"
    using undo_after_push [of s "map (\<lambda>op. [op]) gs" "[g]" "pre @ gs"] snoc.prems by simp
  have sh: "shift_over (redoStack s @ [[g]]) = redoStack s @ [[g]]"
    using snoc.prems(3) by (simp add: shift_over_short)
  let ?s' = "s\<lparr>operations := pre @ gs, undoStack := map (\<lambda>op. [op]) gs,
                 redoStack := redoStack s @ [[g]]\<rparr>"
  have "undo_times (length gs) ?s' =
     ?s'\<lparr>operations := pre, undoStack := [], redoStack := redoStack ?s' @ map (\<lambda>op. [op]) (rev gs)\<rparr>"
    using snoc.prems(3) by (intro snoc.IH) simp_all
  then show ?case
    by (simp add: u sh)
qed

text \<open>
  C3. Sixty single operations appended to an empty log leave an undo stack of exactly
  fifty groups, those of appends 11 to 60 in order; the groups of appends 1 to 10 are
  gone: after fifty undos the first ten operations are still in place and a further undo
  returns \<open>null\<close>. In general an append (\<open>addOperation\<close> or \<open>addOperations\<close>) onto
  an undo stack that already holds fifty groups or more drops its oldest group, and any
  other append only adds the new group.
\<close>

theorem undo_capacity_bound:
  "(length ops = 60 \<longrightarrow>
      undoStack (addAll ops (constructor [])) = map (\<lambda>op. [op]) (drop 10 ops)
      \<and> length (undoStack (addAll ops (constructor []))) = 50
      \<and> operations (undo_times 50 (addAll ops (constructor []))) = take 10 ops
      \<and> undo (undo_times 50 (addAll ops (constructor [])))
          = (None, undo_times 50 (addAll ops (constructor []))))
   \<and> undoStack (addOperation operation s) =
       (if length (undoStack s) + 1 > maxStackSize then tl (undoStack s) @ [[operation]]
        else undoStack s @ [[operation]])
   \<and> undoStack (addOperations grp s) =
       (if length (undoStack s) + 1 > maxStackSize then tl (undoStack s) @ [grp]
        else undoStack s @ [grp])"
proof (intro conjI impI)
  assume len: "length ops = 60"
  let ?s = "addAll ops (constructor [])"
  show us: "undoStack ?s = map (\<lambda>op. [op]) (drop 10 ops)"
    using undoStack_addAll [of "constructor []" ops] len
    by (simp add: constructor_def maxStackSize_def drop_map)
  show "length (undoStack ?s) = 50"
    unfolding us using len by simp
  have os: "operations ?s = take 10 ops @ drop 10 ops"
    by (simp add: operations_addAll constructor_def)
  have rs: "redoStack ?s = []"
    using len by (auto simp: redoStack_addAll)
  have "undo_times (length (drop 10 ops)) ?s =
      ?s\<lparr>operations := take 10 ops, undoStack := [],
          redoStack := redoStack ?s @ map (\<lambda>op. [op]) (rev (drop 10 ops))\<rparr>"
    using len rs by (intro undo_times_singletons [OF us os]) (simp add: maxStackSize_def)
  then have ut: "undo_times 50 ?s =
      ?s\<lparr>operations := take 10 ops, undoStack := [],
          redoStack := redoStack ?s @ map (\<lambda>op. [op]) (rev (drop 10 ops))\<rparr>"
    using len by simp
  show "operations (undo_times 50 ?s) = take 10 ops"
    unfolding ut by simp
  show "undo (undo_times 50 ?s) = (None, undo_times 50 ?s)"
    unfolding ut by (simp add: undo_def canUndo_def)
next
  show "undoStack (addOperation operation s) =
       (if length (undoStack s) + 1 > maxStackSize then tl (undoStack s) @ [[operation]]
        else undoStack s @ [[operation]])"
    by (auto simp: addOperation_def shift_over_snoc)next
  show "undoStack (addOperations grp s) =
       (if length (undoStack s) + 1 > maxStackSize then tl (undoStack s) @ [grp]
        else undoStack s @ [grp])"
    by (auto simp: addOperations_def shift_over_snoc)
qed


theorem undo_capacity_bound_witness:
  "length (map (\<lambda>i. BodyParam hips (real i)) [0..<60]) = 60
   \<and> undoStack (addAll (map (\<lambda>i. BodyParam hips (real i)) [0..<60]) (constructor []))
       = map (\<lambda>op. [op]) (drop 10 (map (\<lambda>i. BodyParam hips (real i)) [0..<60]))
   \<and> length (undoStack (addAll (map (\<lambda>i. BodyParam hips (real i)) [0..<60]) (constructor []))) = 50"
  using undo_capacity_bound [of "map (\<lambda>i. BodyParam hips (real i)) [0..<60]"]
  by simp

section \<open>When the redo stack is emptied\<close>

text \<open>
  C4, as the code has it. The redo stack is empty after every \<open>addOperation\<close>, every
  \<open>addOperations\<close> and every \<open>replaceOperationsOfType\<close>, and after a \<open>resetTool\<close>
  whenever the log holds at least one operation of the type that is reset. An \<open>undo\<close>
  on a non-empty undo stack leaves the redo stack non-empty.
\<close>

theorem redoStack_cleared_by_edits:
  "redoStack (addOperation operation s) = []
   \<and> redoStack (addOperations ops s) = []
   \<and> redoStack (replaceOperationsOfType ty operation s) = []
   \<and> (filter (\<lambda>op. op_type op = ty) (operations s) \<noteq> [] \<longrightarrow> redoStack (resetTool ty s) = [])
   \<and> (canUndo s \<longrightarrow> redoStack (snd (undo s)) \<noteq> [] \<and> canRedo (snd (undo s)))"
proof (intro conjI impI)
  assume "canUndo s"
  then have "redoStack (snd (undo s)) \<noteq> []"
    by (simp add: undo_def Let_def shift_over_snoc split: prod.splits)
  then show "redoStack (snd (undo s)) \<noteq> []" and "canRedo (snd (undo s))"
    by (simp_all add: canRedo_def)
qed (simp_all add: addOperation_def addOperations_def replaceOperationsOfType_def resetTool_def)

text \<open>
  C4 as stated fails for \<open>resetTool\<close>: after one append and one undo the redo stack
  holds the undone magnifier, no twirl is in the log, and \<open>resetTool\<close> for twirl leaves
  the redo stack as it is.
\<close>

theorem redoStack_cleared_by_edits_counterexample:
  "redoStack (resetTool twirl
      (snd (undo (addOperation (Magnifier (100, 100) 50 (3 / 10)) (constructor [])))))
     = [[Magnifier (100, 100) 50 (3 / 10)]]"
  by (simp add: resetTool_def undo_def canUndo_def addOperation_def constructor_def
      shift_over_def maxStackSize_def splice_def)

theorem redoStack_cleared_by_edits_witness:
  "filter (\<lambda>op. op_type op = twirl)
      (operations \<lparr>operations = [Twirl (1, 2) 3 4], undoStack = [[Twirl (1, 2) 3 4]],
                   redoStack = [[BodyParam hips 2]]\<rparr>) \<noteq> []
   \<and> redoStack (resetTool twirl \<lparr>operations = [Twirl (1, 2) 3 4], undoStack = [[Twirl (1, 2) 3 4]],
                   redoStack = [[BodyParam hips 2]]\<rparr>) = []
   \<and> canUndo \<lparr>operations = [Twirl (1, 2) 3 4], undoStack = [[Twirl (1, 2) 3 4]],
                   redoStack = [[BodyParam hips 2]]\<rparr>
   \<and> canRedo (snd (undo \<lparr>operations = [Twirl (1, 2) 3 4], undoStack = [[Twirl (1, 2) 3 4]],
                   redoStack = [[BodyParam hips 2]]\<rparr>))"
  using redoStack_cleared_by_edits
    [of _ "\<lparr>operations = [Twirl (1, 2) 3 4], undoStack = [[Twirl (1, 2) 3 4]],
                   redoStack = [[BodyParam hips 2]]\<rparr>" _ twirl]
  by (simp add: canUndo_def)

section \<open>Coalescing keeps the latest value of each parameter\<close>

lemma map_of_Map_set: "map_of (Map_set m k v) = (map_of m)(k \<mapsto> v)"
  by (induction m) (auto simp: fun_eq_iff)

lemma keys_Map_set: "fst ` set (Map_set m k v) = insert k (fst ` set m)"
  by (induction m) auto

lemma distinct_Map_set: "distinct (map fst m) \<Longrightarrow> distinct (map fst (Map_set m k v))"
  by (induction m) (auto simp: keys_Map_set)

lemma set_Map_set: "set (Map_set m k v) \<subseteq> insert (k, v) (set m)"
  by (induction m) auto

lemma groups_invariant:
  "distinct (map fst (foldl group_step [] ops)) \<and>
   (\<forall>t. map_of (foldl group_step [] ops) t =
      (if filter (\<lambda>op. op_type op = t) ops = [] then None
       else Some (filter (\<lambda>op. op_type op = t) ops)))"
proof (induction ops rule: rev_induct)
  case Nil
  then show ?case by simp
next
  case (snoc operation ops)
  let ?m = "foldl group_step [] ops"
  let ?t0 = "op_type operation"
  have step: "\<exists>m1. group_step ?m operation = Map_set m1 ?t0 (filter (\<lambda>op. op_type op = ?t0) ops @ [operation])
                \<and> distinct (map fst m1) \<and> (\<forall>t. t \<noteq> ?t0 \<longrightarrow> map_of m1 t = map_of ?m t)"
  proof (cases "filter (\<lambda>op. op_type op = ?t0) ops = []")
    case True
    then have "\<not> Map_has ?m ?t0" using snoc by (simp add: Map_has_def)
    then have "group_step ?m operation = Map_set (Map_set ?m ?t0 []) ?t0 ([] @ [operation])"
      by (simp add: group_step_def Let_def map_of_Map_set)
    then show ?thesis
      using True snoc by (intro exI [of _ "Map_set ?m ?t0 []"]) (simp add: distinct_Map_set map_of_Map_set)
  next
    case False
    then have "map_of ?m ?t0 = Some (filter (\<lambda>op. op_type op = ?t0) ops)" using snoc by simp
    then have "group_step ?m operation = Map_set ?m ?t0 (filter (\<lambda>op. op_type op = ?t0) ops @ [operation])"
      by (simp add: group_step_def Let_def Map_has_def)
    then show ?thesis
      using snoc by (intro exI [of _ ?m]) simp
  qed
  then obtain m1 where m1: "group_step ?m operation = Map_set m1 ?t0 (filter (\<lambda>op. op_type op = ?t0) ops @ [operation])"
    "distinct (map fst m1)" "\<And>t. t \<noteq> ?t0 \<Longrightarrow> map_of m1 t = map_of ?m t"
    by blast
  show ?case
  proof (intro conjI allI)
    show "distinct (map fst (foldl group_step [] (ops @ [operation])))"
      using m1 by (simp add: distinct_Map_set)
  next
    fix t
    show "map_of (foldl group_step [] (ops @ [operation])) t =
      (if filter (\<lambda>op. op_type op = t) (ops @ [operation]) = [] then None
       else Some (filter (\<lambda>op. op_type op = t) (ops @ [operation])))"
    proof (cases "t = ?t0")
      case True
      then show ?thesis using m1(1) by (simp add: map_of_Map_set)
    next
      case False
      then show ?thesis using m1(1) m1(3) [OF False] snoc by (simp add: map_of_Map_set)
    qed
  qed
qed


lemma paramMap_invariant:
  "distinct (map fst (foldl paramMap_step [] g)) \<and>
   (\<forall>(k, v) \<in> set (foldl paramMap_step [] g). param_key v = Some k \<and> v \<in> set g) \<and>
   (\<forall>k. map_of (foldl paramMap_step [] g) k =
      (if filter (\<lambda>op. param_key op = Some k) g = [] then None
       else Some (last (filter (\<lambda>op. param_key op = Some k) g))))"
proof (induction g rule: rev_induct)
  case Nil
  then show ?case by simp
next
  case (snoc operation g)
  let ?m = "foldl paramMap_step [] g"
  show ?case
  proof (cases "param_key operation")
    case None
    then have "paramMap_step ?m operation = ?m"
      by (simp add: paramMap_step_def)
    then show ?thesis
      using snoc None by auto
  next
    case (Some k0)
    then have "op_type operation = bodyParam \<or> op_type operation = faceParam"
      by (cases operation) simp_all
    then have st: "paramMap_step ?m operation = Map_set ?m k0 operation"
      using Some by (simp add: paramMap_step_def)
    have "distinct (map fst (Map_set ?m k0 operation))"
      using snoc by (simp add: distinct_Map_set)
    moreover have "\<forall>(k, v) \<in> set (Map_set ?m k0 operation). param_key v = Some k \<and> v \<in> set (g @ [operation])"
      using snoc Some set_Map_set [of ?m k0 operation] by auto
    moreover have "\<forall>k. map_of (Map_set ?m k0 operation) k =
      (if filter (\<lambda>op. param_key op = Some k) (g @ [operation]) = [] then None
       else Some (last (filter (\<lambda>op. param_key op = Some k) (g @ [operation]))))"
      using snoc Some by (simp add: map_of_Map_set)
    ultimately show ?thesis
      by (simp add: st)
  qed
qed

lemma values_no_key:
  "k \<notin> fst ` set m \<Longrightarrow> \<forall>(k', v) \<in> set m. f v = Some k' \<Longrightarrow>
   filter (\<lambda>v. f v = Some k) (map snd m) = []"
  by (induction m) auto

lemma values_by_key:
  "distinct (map fst m) \<Longrightarrow> \<forall>(k', v) \<in> set m. f v = Some k' \<Longrightarrow>
   filter (\<lambda>v. f v = Some k) (map snd m) = (case map_of m k of None \<Rightarrow> [] | Some v \<Rightarrow> [v])"
proof (induction m)
  case Nil
  then show ?case by simp
next
  case (Cons e m)
  obtain k0 v0 where e: "e = (k0, v0)" by (cases e)
  show ?case
  proof (cases "k0 = k")
    case True
    then have "k \<notin> fst ` set m" using Cons.prems(1) e by auto
    then have "filter (\<lambda>v. f v = Some k) (map snd m) = []"
      using Cons.prems(2) by (intro values_no_key) auto
    then show ?thesis using True e Cons.prems(2) by simp
  next
    case False
    then show ?thesis using e Cons by auto
  qed
qed

lemma last_only_filter_singleton: "filter P [x] = last_only (filter P [x])"
  by (simp add: last_only_def)

lemma paramMap_values:
  "filter (\<lambda>op. param_key op = Some k) (map snd (foldl paramMap_step [] g))
     = last_only (filter (\<lambda>op. param_key op = Some k) g)"
proof -
  have d: "distinct (map fst (foldl paramMap_step [] g))"
    and v: "\<forall>(k', v) \<in> set (foldl paramMap_step [] g). param_key v = Some k'"
    and m: "map_of (foldl paramMap_step [] g) k =
      (if filter (\<lambda>op. param_key op = Some k) g = [] then None
       else Some (last (filter (\<lambda>op. param_key op = Some k) g)))"
    using paramMap_invariant [of g] by auto
  show ?thesis
    unfolding values_by_key [OF d v] m by (simp add: last_only_def)
qed

lemma paramMap_values_subset: "set (map snd (foldl paramMap_step [] g)) \<subseteq> set g"
  using paramMap_invariant [of g] by auto

text \<open>What a non-empty group contributes.\<close>

lemma optimizeGroup_total: "g \<noteq> [] \<Longrightarrow> \<exists>out. optimizeGroup g = Some out"
proof (cases g)
  case Nil
  assume "g \<noteq> []"
  then show ?thesis using Nil by simp
next
  case (Cons first rest)
  then show ?thesis
    by (cases "op_type first") (simp_all add: optimizeGroup_def Let_def)
qed

lemma optimizeGroup_shape:
  assumes "optimizeGroup g = Some out"
  shows "set out \<subseteq> set g \<or> (\<exists>st fm. out = [Liquify st fm] \<and> op_type (hd g) = liquify)"
proof (cases g)
  case Nil
  then show ?thesis using assms by (simp add: optimizeGroup_def)
next
  case (Cons first rest)
  have lastg: "last g \<in> set g" using Cons by simp
  show ?thesis
  proof (cases "length g = 1")
    case True
    then show ?thesis using assms Cons by (simp add: optimizeGroup_def)
  next
    case False
    then have long: "rest \<noteq> []" using Cons by simp
    have sub: "set (map snd (foldl paramMap_step [] g)) \<subseteq> set g"
      by (rule paramMap_values_subset)
    show ?thesis
    proof (cases "op_type first")
      case liquify
      then show ?thesis
        using assms Cons long by (auto simp: optimizeGroup_def Let_def split: if_splits)
    next
      case bodyParam
      then have "out = map snd (foldl paramMap_step [] g)"
        using assms Cons long by (simp add: optimizeGroup_def)
      then show ?thesis using sub by simp
    next
      case faceParam
      then have "out = map snd (foldl paramMap_step [] g)"
        using assms Cons long by (simp add: optimizeGroup_def)
      then show ?thesis using sub by simp
    next
      case color
      then have "out = [last g]"
        using assms Cons long by (simp add: optimizeGroup_def)
      then show ?thesis using lastg by simp
    qed (use assms Cons long in \<open>simp_all add: optimizeGroup_def\<close>)
  qed
qed

lemma optimizeGroup_types:
  assumes "optimizeGroup g = Some out" "\<forall>op \<in> set g. op_type op = t"
  shows "\<forall>op \<in> set out. op_type op = t"
proof -
  have "g \<noteq> []" using assms(1) by (auto simp: optimizeGroup_def)
  then have "op_type (hd g) = t" using assms(2) by simp
  then show ?thesis
    using optimizeGroup_shape [OF assms(1)] assms(2) by auto
qed

lemma optimizeGroup_params:
  assumes "optimizeGroup g = Some out" "\<forall>op \<in> set g. op_type op = t"
    and "t = bodyParam \<or> t = faceParam"
  shows "filter (\<lambda>op. param_key op = Some k) out = last_only (filter (\<lambda>op. param_key op = Some k) g)"
proof (cases g)
  case Nil
  then show ?thesis using assms by (simp add: optimizeGroup_def)
next
  case (Cons first rest)
  then have ft: "op_type first = t" using assms(2) by simp
  show ?thesis
  proof (cases "length g = 1")
    case True
    then have "g = [first]" "out = [first]"
      using assms(1) Cons by (simp_all add: optimizeGroup_def)
    then show ?thesis
      using last_only_filter_singleton by metis
  next
    case False
    then have long: "rest \<noteq> []" using Cons by simp
    have "out = map snd (foldl paramMap_step [] g)"
      using assms(3)
    proof
      assume "t = bodyParam"
      then show ?thesis using assms(1) Cons ft long by (simp add: optimizeGroup_def)
    next
      assume "t = faceParam"
      then show ?thesis using assms(1) Cons ft long by (simp add: optimizeGroup_def)
    qed
    then show ?thesis
      by (simp add: paramMap_values)
  qed
qed


lemma optimize_loop_outputs:
  "\<forall>(t, g) \<in> set m. g \<noteq> [] \<Longrightarrow>
   \<exists>outs. optimize_loop m acc = Some (acc @ concat outs)
        \<and> list_all2 (\<lambda>e out. optimizeGroup (snd e) = Some out) m outs"
proof (induction m arbitrary: acc)
  case Nil
  then show ?case by simp
next
  case (Cons e m)
  obtain t g where e: "e = (t, g)" by (cases e)
  then have "g \<noteq> []" using Cons.prems by simp
  then obtain out where out: "optimizeGroup g = Some out"
    using optimizeGroup_total by blast
  obtain outs where outs: "optimize_loop m (acc @ out) = Some ((acc @ out) @ concat outs)"
      "list_all2 (\<lambda>e out. optimizeGroup (snd e) = Some out) m outs"
    using Cons.IH [of "acc @ out"] Cons.prems by auto
  show ?case
    using e out outs by (intro exI [of _ "out # outs"]) simp
qed

lemma outputs_of_type:
  assumes "list_all2 (\<lambda>e out. optimizeGroup (snd e) = Some out) m outs"
    and "distinct (map fst m)"
    and "\<forall>(t, g) \<in> set m. \<forall>op \<in> set g. op_type op = t"
    and "\<forall>op. P op \<longrightarrow> op_type op = t0"
  shows "filter P (concat outs) =
           (case map_of m t0 of None \<Rightarrow> []
            | Some g \<Rightarrow> (case optimizeGroup g of None \<Rightarrow> [] | Some out \<Rightarrow> filter P out))"
  using assms(1,2,3)
proof (induction rule: list_all2_induct)
  case Nil
  then show ?case by simp
next
  case (Cons e m out outs)
  obtain t g where e: "e = (t, g)" by (cases e)
  have out: "optimizeGroup g = Some out" using Cons.hyps(1) e by simp
  have ih: "filter P (concat outs) =
           (case map_of m t0 of None \<Rightarrow> []
            | Some g \<Rightarrow> (case optimizeGroup g of None \<Rightarrow> [] | Some out \<Rightarrow> filter P out))"
    using Cons by simp
  show ?case
  proof (cases "t = t0")
    case True
    then have "map_of m t0 = None"
      using Cons.prems(1) e by (simp add: map_of_eq_None_iff)
    then show ?thesis using ih True e out by simp
  next
    case False
    have "\<forall>op \<in> set g. op_type op = t"
      using Cons.prems(2) e by simp
    then have "\<forall>op \<in> set out. op_type op = t"
      by (rule optimizeGroup_types [OF out])
    then have "filter P out = []"
      using False assms(4) by (auto simp: filter_empty_conv)
    then show ?thesis using ih False e by simp
  qed
qed

lemma groups_members:
  assumes "(t, g) \<in> set (foldl group_step [] ops)"
  shows "g = filter (\<lambda>op. op_type op = t) ops \<and> g \<noteq> []"
proof -
  have "distinct (map fst (foldl group_step [] ops))"
    using groups_invariant [of ops] by blast
  then have "map_of (foldl group_step [] ops) t = Some g"
    using assms by (rule map_of_is_SomeI)
  moreover have "map_of (foldl group_step [] ops) t =
      (if filter (\<lambda>op. op_type op = t) ops = [] then None
       else Some (filter (\<lambda>op. op_type op = t) ops))"
    using groups_invariant [of ops] by simp
  ultimately show ?thesis
    by (simp split: if_splits)
qed

lemma optimizeOperations_total:
  "\<exists>optimized. optimize_loop (foldl group_step [] (operations s)) [] = Some optimized
      \<and> optimizeOperations s = Some (s\<lparr>operations := optimized\<rparr>)"
proof -
  let ?m = "foldl group_step [] (operations s)"
  have "\<forall>(t, g) \<in> set ?m. g \<noteq> []"
    using groups_members [of _ _ "operations s"] by auto
  then obtain outs where "optimize_loop ?m [] = Some ([] @ concat outs)"
    using optimize_loop_outputs [of ?m "[]"] by blast
  then show ?thesis
    by (simp add: optimizeOperations_def)
qed

lemma param_key_type:
  "param_key op = Some pk \<Longrightarrow>
   op_type op = (case pk of BodyKey _ \<Rightarrow> bodyParam | FaceKey _ \<Rightarrow> faceParam)"
  by (cases op) auto

lemma optimize_params:
  assumes "optimizeOperations s = Some s'"
  shows "filter (\<lambda>op. param_key op = Some pk) (operations s')
           = last_only (filter (\<lambda>op. param_key op = Some pk) (operations s))"
proof -
  let ?ops = "operations s"
  let ?m = "foldl group_step [] ?ops"
  let ?P = "\<lambda>op. param_key op = Some pk"
  define t0 where "t0 = (case pk of BodyKey _ \<Rightarrow> bodyParam | FaceKey _ \<Rightarrow> faceParam)"
  have t0: "t0 = bodyParam \<or> t0 = faceParam"
    by (cases pk) (simp_all add: t0_def)
  have Pt: "\<forall>op. ?P op \<longrightarrow> op_type op = t0"
    using param_key_type by (simp add: t0_def)
  have dist: "distinct (map fst ?m)"
    and look: "\<And>t. map_of ?m t =
      (if filter (\<lambda>op. op_type op = t) ?ops = [] then None
       else Some (filter (\<lambda>op. op_type op = t) ?ops))"
    using groups_invariant [of ?ops] by auto
  have mem: "\<And>t g. (t, g) \<in> set ?m \<Longrightarrow> g = filter (\<lambda>op. op_type op = t) ?ops \<and> g \<noteq> []"
    by (rule groups_members)
  have nonempty: "\<forall>(t, g) \<in> set ?m. g \<noteq> []"
    using mem by auto
  have typed: "\<forall>(t, g) \<in> set ?m. \<forall>op \<in> set g. op_type op = t"
    using mem by fastforce
  obtain outs where outs: "optimize_loop ?m [] = Some ([] @ concat outs)"
      "list_all2 (\<lambda>e out. optimizeGroup (snd e) = Some out) ?m outs"
    using optimize_loop_outputs [OF nonempty, of "[]"] by blast
  have s': "operations s' = concat outs"
    using assms outs(1) by (auto simp: optimizeOperations_def)
  have same: "filter ?P (filter (\<lambda>op. op_type op = t0) ?ops) = filter ?P ?ops"
    unfolding filter_filter by (rule filter_cong) (use Pt in auto)
  have sel: "filter ?P (concat outs) =
           (case map_of ?m t0 of None \<Rightarrow> []
            | Some g \<Rightarrow> (case optimizeGroup g of None \<Rightarrow> [] | Some out \<Rightarrow> filter ?P out))"
    by (rule outputs_of_type [OF outs(2) dist typed Pt])
  show ?thesis
  proof (cases "filter (\<lambda>op. op_type op = t0) ?ops = []")
    case True
    then have "filter ?P ?ops = []" using same by simp
    then show ?thesis
      using sel True by (simp add: s' look last_only_def)
  next
    case False
    let ?g = "filter (\<lambda>op. op_type op = t0) ?ops"
    obtain out where out: "optimizeGroup ?g = Some out"
      using optimizeGroup_total [OF False] by blast
    have "filter ?P out = last_only (filter ?P ?g)"
      using optimizeGroup_params [OF out _ t0] by simp
    then show ?thesis
      using sel False out same by (simp add: s' look)
  qed
qed

text \<open>
  C5. \<open>optimizeOperations\<close> always completes, and for every key the operations that
  are left hold at most one \<open>bodyParam\<close> and at most one \<open>faceParam\<close> with that key:
  none when the log had none, otherwise exactly the one appended last for the key, with
  its value. In particular \<open>faceParam\<close> \<open>eyeSize\<close> 5 followed by \<open>faceParam\<close>
  \<open>eyeSize\<close> 8 is coalesced to the single operation with value 8.
\<close>

theorem optimize_keeps_latest_param:
  "(\<exists>s'. optimizeOperations s = Some s' \<and>
      (\<forall>pk. length (filter (\<lambda>op. param_key op = Some pk) (operations s')) \<le> 1
          \<and> filter (\<lambda>op. param_key op = Some pk) (operations s')
              = (if filter (\<lambda>op. param_key op = Some pk) (operations s) = [] then []
                 else [last (filter (\<lambda>op. param_key op = Some pk) (operations s))])))
   \<and> optimizeOperations (addOperation (FaceParam eyeSize 8)
            (addOperation (FaceParam eyeSize 5) (constructor [])))
       = Some \<lparr>operations = [FaceParam eyeSize 8],
               undoStack = [[FaceParam eyeSize 5], [FaceParam eyeSize 8]],
               redoStack = []\<rparr>"
proof (intro conjI)
  obtain s' where s': "optimizeOperations s = Some s'"
    using optimizeOperations_total [of s] by blast
  have "\<And>pk. filter (\<lambda>op. param_key op = Some pk) (operations s')
           = last_only (filter (\<lambda>op. param_key op = Some pk) (operations s))"
    using optimize_params [OF s'] by simp
  then show "\<exists>s'. optimizeOperations s = Some s' \<and>
      (\<forall>pk. length (filter (\<lambda>op. param_key op = Some pk) (operations s')) \<le> 1
          \<and> filter (\<lambda>op. param_key op = Some pk) (operations s')
              = (if filter (\<lambda>op. param_key op = Some pk) (operations s) = [] then []
                 else [last (filter (\<lambda>op. param_key op = Some pk) (operations s))]))"
    using s' by (intro exI [of _ s']) (simp add: last_only_def)
next
  show "optimizeOperations (addOperation (FaceParam eyeSize 8)
            (addOperation (FaceParam eyeSize 5) (constructor [])))
       = Some \<lparr>operations = [FaceParam eyeSize 8],
               undoStack = [[FaceParam eyeSize 5], [FaceParam eyeSize 8]],
               redoStack = []\<rparr>"
    by (simp add: optimizeOperations_def addOperation_def constructor_def shift_over_def
        maxStackSize_def group_step_def Map_has_def optimizeGroup_def paramMap_step_def)
qed

section \<open>Coalescing and the history\<close>

text \<open>
  C6, as the code has it. \<open>optimizeOperations\<close> assigns \<open>operations\<close> only: the undo
  stack and the redo stack after the call are the ones before it, so \<open>canUndo\<close> and
  \<open>canRedo\<close> answer as they did before.
\<close>

theorem optimize_keeps_history:
  "\<exists>s'. optimizeOperations s = Some s' \<and> undoStack s' = undoStack s \<and> redoStack s' = redoStack s
      \<and> canUndo s' = canUndo s \<and> canRedo s' = canRedo s"
  using optimizeOperations_total [of s] by (auto simp: canUndo_def canRedo_def)

text \<open>
  C6 as stated fails: after one append the undo stack holds one group, and it still
  does after \<open>optimizeOperations\<close>, so \<open>canUndo\<close> is true.
\<close>

theorem optimize_keeps_history_counterexample:
  "optimizeOperations (addOperation (Magnifier (100, 100) 50 (3 / 10)) (constructor []))
     = Some \<lparr>operations = [Magnifier (100, 100) 50 (3 / 10)],
             undoStack = [[Magnifier (100, 100) 50 (3 / 10)]], redoStack = []\<rparr>
   \<and> canUndo \<lparr>operations = [Magnifier (100, 100) 50 (3 / 10)],
             undoStack = [[Magnifier (100, 100) 50 (3 / 10)]], redoStack = []\<rparr>"
  by (simp add: optimizeOperations_def addOperation_def constructor_def shift_over_def
        maxStackSize_def group_step_def Map_has_def optimizeGroup_def canUndo_def)


section \<open>Properties of the rounding\<close>

lemma round_ties_even_near: "\<bar>of_int (round_ties_even m) - m\<bar> \<le> 1 / 2"
  unfolding round_ties_even_def Let_def by (auto; linarith)

lemma binade:
  assumes "v \<noteq> 0"
  shows "2 powi \<lfloor>log 2 \<bar>v\<bar>\<rfloor> \<le> \<bar>v\<bar>" and "\<bar>v\<bar> < 2 powi (\<lfloor>log 2 \<bar>v\<bar>\<rfloor> + 1)"
proof -
  have pos: "\<bar>v\<bar> > 0" using assms by simp
  have "\<lfloor>log 2 \<bar>v\<bar>\<rfloor> = \<lfloor>log 2 \<bar>v\<bar>\<rfloor>" by simp
  then have "2 powr real_of_int \<lfloor>log 2 \<bar>v\<bar>\<rfloor> \<le> \<bar>v\<bar> \<and> \<bar>v\<bar> < 2 powr (real_of_int \<lfloor>log 2 \<bar>v\<bar>\<rfloor> + 1)"
    using floor_log_eq_powr_iff [OF pos, of 2 "\<lfloor>log 2 \<bar>v\<bar>\<rfloor>"] by simp
  then show "2 powi \<lfloor>log 2 \<bar>v\<bar>\<rfloor> \<le> \<bar>v\<bar>" and "\<bar>v\<bar> < 2 powi (\<lfloor>log 2 \<bar>v\<bar>\<rfloor> + 1)"
    using powr_real_of_int' [of 2 "\<lfloor>log 2 \<bar>v\<bar>\<rfloor>"] powr_real_of_int' [of 2 "\<lfloor>log 2 \<bar>v\<bar>\<rfloor> + 1"]
    by simp_all
qed

lemma fl_in_binade:
  assumes "2 powi e \<le> \<bar>v\<bar>" "\<bar>v\<bar> < 2 powi (e + 1)"
  shows "fl v = of_int (round_ties_even (v / 2 powi (e - 52))) * 2 powi (e - 52)"
proof -
  have pos: "\<bar>v\<bar> > 0"
    using assms(1) by (smt (verit) zero_less_power_int)
  have "2 powr real_of_int e \<le> \<bar>v\<bar> \<and> \<bar>v\<bar> < 2 powr (real_of_int e + 1)"
    using assms powr_real_of_int' [of 2 e] powr_real_of_int' [of 2 "e + 1"] by simp
  then have "\<lfloor>log 2 \<bar>v\<bar>\<rfloor> = e"
    using floor_log_eq_powr_iff [OF pos, of 2 e] by simp
  then show ?thesis
    using pos by (auto simp: fl_def Let_def)
qed

lemma fl_error: "\<bar>fl v - v\<bar> \<le> unit_roundoff * \<bar>v\<bar>"
proof (cases "v = 0")
  case True
  then show ?thesis by (simp add: fl_def)
next
  case False
  define e where "e = \<lfloor>log 2 \<bar>v\<bar>\<rfloor>"
  define k where "k = e - 52"
  have p: "(2::real) powi k > 0" by simp
  have flv: "fl v = of_int (round_ties_even (v / 2 powi k)) * 2 powi k"
    using False by (simp add: fl_def Let_def e_def k_def)
  have "fl v - v = (of_int (round_ties_even (v / 2 powi k)) - v / 2 powi k) * 2 powi k"
    unfolding flv using p by (simp add: field_simps)
  then have "\<bar>fl v - v\<bar> = \<bar>of_int (round_ties_even (v / 2 powi k)) - v / 2 powi k\<bar> * 2 powi k"
    using p by (simp add: abs_mult)
  also have "\<dots> \<le> (1 / 2) * 2 powi k"
    using round_ties_even_near [of "v / 2 powi k"] p by (intro mult_right_mono) simp_all
  also have "\<dots> = unit_roundoff * 2 powi e"
    by (simp add: k_def unit_roundoff_def power_int_diff)
  also have "\<dots> \<le> unit_roundoff * \<bar>v\<bar>"
    using binade(1) [OF False] by (intro mult_left_mono) (simp_all add: e_def unit_roundoff_def)
  finally show ?thesis .
qed


lemma unit_roundoff_small: "0 < unit_roundoff" "unit_roundoff < 1"
  by (simp_all add: unit_roundoff_def)

lemma fl_zero: "fl 0 = 0"
  by (simp add: fl_def)

lemma fl_rel: "\<exists>d. \<bar>d\<bar> \<le> unit_roundoff \<and> fl v = v * (1 + d)"
proof (cases "v = 0")
  case True
  then show ?thesis
    using unit_roundoff_small by (intro exI [of _ 0]) (simp add: fl_zero)
next
  case False
  have "\<bar>(fl v - v) / v\<bar> \<le> unit_roundoff"
    using fl_error [of v] False by (simp add: field_simps)
  moreover have "fl v = v * (1 + (fl v - v) / v)"
    using False by (simp add: field_simps)
  ultimately show ?thesis by blast
qed

lemma fl_bounds:
  assumes "0 \<le> v"
  shows "(1 - unit_roundoff) * v \<le> fl v" and "fl v \<le> (1 + unit_roundoff) * v"
  using fl_error [of v] assms by (simp_all add: algebra_simps abs_le_iff)

lemma fl_pos: "0 < v \<Longrightarrow> 0 < fl v"
proof -
  assume v: "0 < v"
  have "0 < (1 - unit_roundoff) * v"
    using v unit_roundoff_small by simp
  then show ?thesis
    using fl_bounds(1) [of v] v by linarith
qed

lemma min_fl:
  assumes "0 < a" "0 < b"
  shows "(1 - unit_roundoff) * min a b \<le> min (fl a) (fl b)"
    and "min (fl a) (fl b) \<le> (1 + unit_roundoff) * min a b"
proof -
  have u: "0 \<le> 1 - unit_roundoff" "0 \<le> 1 + unit_roundoff"
    using unit_roundoff_small by simp_all
  have la: "(1 - unit_roundoff) * min a b \<le> (1 - unit_roundoff) * a"
    and lb: "(1 - unit_roundoff) * min a b \<le> (1 - unit_roundoff) * b"
    using u(1) by (simp_all add: mult_left_mono)
  show "(1 - unit_roundoff) * min a b \<le> min (fl a) (fl b)"
    using la lb fl_bounds(1) [of a] fl_bounds(1) [of b] assms by (simp add: min_def)
  show "min (fl a) (fl b) \<le> (1 + unit_roundoff) * min a b"
  proof (cases "a \<le> b")
    case True
    have "min (fl a) (fl b) \<le> fl a" by simp
    also have "\<dots> \<le> (1 + unit_roundoff) * a"
      using fl_bounds(2) [of a] assms(1) by simp
    finally show ?thesis using True by (simp add: min_def)
  next
    case False
    have "min (fl a) (fl b) \<le> fl b" by simp
    also have "\<dots> \<le> (1 + unit_roundoff) * b"
      using fl_bounds(2) [of b] assms(2) by simp
    finally show ?thesis using False by (simp add: min_def)
  qed
qed

lemma fl_scaled:
  assumes "0 < x" "0 < s0"
    and "(1 - unit_roundoff) * s0 \<le> s" "s \<le> (1 + unit_roundoff) * s0"
  shows "\<bar>fl (x * s) - x * s0\<bar> \<le> 3 * unit_roundoff * (x * s0)"
proof -
  have spos: "0 \<le> s"
    using assms(2,3) unit_roundoff_small
    by (smt (verit) mult_nonneg_nonneg)
  have e1: "\<bar>fl (x * s) - x * s\<bar> \<le> unit_roundoff * (x * s)"
    using fl_error [of "x * s"] assms(1) spos by (simp add: abs_mult)
  have "x * s \<le> x * ((1 + unit_roundoff) * s0)"
    using assms(1,4) by (simp add: mult_left_mono)
  then have e2: "unit_roundoff * (x * s) \<le> unit_roundoff * (x * ((1 + unit_roundoff) * s0))"
    using unit_roundoff_small by (simp add: mult_left_mono)
  have "\<bar>s - s0\<bar> \<le> unit_roundoff * s0"
    using assms(3,4) by (simp add: abs_le_iff algebra_simps)
  then have "x * \<bar>s - s0\<bar> \<le> x * (unit_roundoff * s0)"
    using assms(1) by (simp add: mult_left_mono)
  moreover have "\<bar>x * s - x * s0\<bar> = x * \<bar>s - s0\<bar>"
    using assms(1) by (simp add: right_diff_distrib [symmetric] abs_mult)
  ultimately have e3: "\<bar>x * s - x * s0\<bar> \<le> unit_roundoff * (x * s0)"
    by (simp add: mult.left_commute)
  have sq: "unit_roundoff * unit_roundoff \<le> unit_roundoff"
    using unit_roundoff_small by (simp add: mult_left_le)
  have xs: "0 \<le> x * s0" using assms(1,2) by simp
  have "unit_roundoff * (x * ((1 + unit_roundoff) * s0)) + unit_roundoff * (x * s0)
          = (2 * unit_roundoff + unit_roundoff * unit_roundoff) * (x * s0)"
    by (simp add: algebra_simps)
  also have "\<dots> \<le> (3 * unit_roundoff) * (x * s0)"
    using sq xs by (intro mult_right_mono) simp_all
  finally have "unit_roundoff * (x * ((1 + unit_roundoff) * s0)) + unit_roundoff * (x * s0)
          \<le> 3 * unit_roundoff * (x * s0)" .
  then show ?thesis
    using e1 e2 e3 by linarith
qed


lemma compound_step:
  assumes "\<bar>p - 1\<bar> \<le> (1 + unit_roundoff) ^ n - 1" "\<bar>d\<bar> \<le> unit_roundoff"
  shows "\<bar>p * (1 + d) - 1\<bar> \<le> (1 + unit_roundoff) ^ Suc n - 1"
proof -
  have b: "0 \<le> (1 + unit_roundoff) ^ n - 1"
    using assms(1) by linarith
  have "p * (1 + d) - 1 = (p - 1) * (1 + d) + d"
    by (simp add: algebra_simps)
  then have "\<bar>p * (1 + d) - 1\<bar> \<le> \<bar>p - 1\<bar> * \<bar>1 + d\<bar> + \<bar>d\<bar>"
    by (metis abs_mult abs_triangle_ineq)
  also have "\<dots> \<le> ((1 + unit_roundoff) ^ n - 1) * (1 + unit_roundoff) + unit_roundoff"
  proof -
    have "\<bar>1 + d\<bar> \<le> 1 + unit_roundoff" using assms(2) by linarith
    then have "\<bar>p - 1\<bar> * \<bar>1 + d\<bar> \<le> ((1 + unit_roundoff) ^ n - 1) * (1 + unit_roundoff)"
      using assms(1) b by (intro mult_mono) simp_all
    then show ?thesis using assms(2) by linarith
  qed
  also have "\<dots> = (1 + unit_roundoff) ^ Suc n - 1"
    by (simp add: algebra_simps)
  finally show ?thesis .
qed

lemma compound_two: "(1 + unit_roundoff) ^ 2 - 1 \<le> 3 * unit_roundoff"
  by (simp add: unit_roundoff_def power2_eq_square)


lemma halved_difference:
  assumes "\<bar>d\<bar> \<le> c"
  shows "\<bar>fl (fl d / 2) - d / 2\<bar> \<le> 3 * unit_roundoff * c / 2"
proof -
  define a where "a = fl d"
  define b where "b = fl (a / 2)"
  obtain d1 where d1: "\<bar>d1\<bar> \<le> unit_roundoff" "a = d * (1 + d1)"
    unfolding a_def using fl_rel by blast
  obtain d2 where d2: "\<bar>d2\<bar> \<le> unit_roundoff" "b = a / 2 * (1 + d2)"
    unfolding b_def using fl_rel by blast
  have "\<bar>(1::real) - 1\<bar> \<le> (1 + unit_roundoff) ^ 0 - 1" by simp
  then have "\<bar>1 * (1 + d1) - 1\<bar> \<le> (1 + unit_roundoff) ^ Suc 0 - 1"
    using d1(1) by (rule compound_step)
  then have "\<bar>1 * (1 + d1) * (1 + d2) - 1\<bar> \<le> (1 + unit_roundoff) ^ Suc (Suc 0) - 1"
    using d2(1) by (rule compound_step)
  then have p: "\<bar>(1 + d1) * (1 + d2) - 1\<bar> \<le> 3 * unit_roundoff"
    using compound_two by (simp add: numeral_2_eq_2)
  have eq: "b - d / 2 = d / 2 * ((1 + d1) * (1 + d2) - 1)"
    by (simp add: d2(2) d1(2) algebra_simps)
  have "\<bar>b - d / 2\<bar> = \<bar>d / 2\<bar> * \<bar>(1 + d1) * (1 + d2) - 1\<bar>"
    unfolding eq by (rule abs_mult)
  also have "\<dots> \<le> c / 2 * (3 * unit_roundoff)"
    using assms p by (intro mult_mono) simp_all
  finally show ?thesis by (simp add: algebra_simps a_def b_def)
qed


section \<open>The rounding at the inputs used below\<close>

text \<open>
  Each fact gives one rounding that occurs in the computations evaluated below; its
  second line names the binade of the argument.
\<close>

lemma fl_at_1: "fl (1 / 5) = 3602879701896397 / 18014398509481984"
  using fl_in_binade [of "- 3" "1 / 5"]
  by (simp add: round_ties_even_def power_int_minus)

lemma fl_at_2: "fl (450359962737049625 / 562949953421312) = 800"
  using fl_in_binade [of 9 "450359962737049625 / 562949953421312"]
  by (simp add: round_ties_even_def power_int_minus)

lemma fl_at_3: "fl (1351079888211148875 / 2251799813685248) = 600"
  using fl_in_binade [of 9 "1351079888211148875 / 2251799813685248"]
  by (simp add: round_ties_even_def power_int_minus)

lemma fl_at_4: "fl (2 / 3) = 6004799503160661 / 9007199254740992"
  using fl_in_binade [of "- 1" "2 / 3"]
  by (simp add: round_ties_even_def power_int_minus)

lemma fl_at_5: "fl (1) = 1"
  using fl_in_binade [of 0 "1"]
  by (simp add: round_ties_even_def power_int_minus)

lemma fl_at_6: "fl (18014398509481983 / 9007199254740992) = 2"
  using fl_in_binade [of 0 "18014398509481983 / 9007199254740992"]
  by (simp add: round_ties_even_def power_int_minus)

lemma fl_at_7: "fl (6004799503160661 / 4503599627370496) = 6004799503160661 / 4503599627370496"
  using fl_in_binade [of 0 "6004799503160661 / 4503599627370496"]
  by (simp add: round_ties_even_def power_int_minus)

lemma fl_at_8: "fl (3002399751580331 / 4503599627370496) = 3002399751580331 / 4503599627370496"
  using fl_in_binade [of "- 1" "3002399751580331 / 4503599627370496"]
  by (simp add: round_ties_even_def power_int_minus)

lemma fl_at_9: "fl (3002399751580331 / 9007199254740992) = 3002399751580331 / 9007199254740992"
  using fl_in_binade [of "- 2" "3002399751580331 / 9007199254740992"]
  by (simp add: round_ties_even_def power_int_minus)

lemma fl_at_10: "fl (13 / 6) = 4878899596318037 / 2251799813685248"
  using fl_in_binade [of 1 "13 / 6"]
  by (simp add: round_ties_even_def power_int_minus)

lemma fl_at_11: "fl (59 / 27) = 1230149898216941 / 562949953421312"
  using fl_in_binade [of 1 "59 / 27"]
  by (simp add: round_ties_even_def power_int_minus)

lemma fl_at_12: "fl (14636698788954111 / 1125899906842624) = 13"
  using fl_in_binade [of 3 "14636698788954111 / 1125899906842624"]
  by (simp add: round_ties_even_def power_int_minus)

lemma fl_at_13: "fl (131730289100586999 / 2251799813685248) = 8233143068786687 / 140737488355328"
  using fl_in_binade [of 5 "131730289100586999 / 2251799813685248"]
  by (simp add: round_ties_even_def power_int_minus)

lemma fl_at_14: "fl (17 / 224) = 5468656690378459 / 72057594037927936"
  using fl_in_binade [of "- 4" "17 / 224"]
  by (simp add: round_ties_even_def power_int_minus)

lemma fl_at_15: "fl (181 / 1512) = 2156485535857301 / 18014398509481984"
  using fl_in_binade [of "- 4" "181 / 1512"]
  by (simp add: round_ties_even_def power_int_minus)

lemma fl_at_16: "fl (344525371493842917 / 1125899906842624) = 306"
  using fl_in_binade [of 8 "344525371493842917 / 1125899906842624"]
  by (simp add: round_ties_even_def power_int_minus)

lemma fl_at_17: "fl (1033576114481528751 / 4503599627370496) = 8074813394386943 / 35184372088832"
  using fl_in_binade [of 7 "1033576114481528751 / 4503599627370496"]
  by (simp add: round_ties_even_def power_int_minus)

lemma fl_at_18: "fl (563 / 2016) = 628850840825791 / 2251799813685248"
  using fl_in_binade [of "- 2" "563 / 2016"]
  by (simp add: round_ties_even_def power_int_minus)

lemma fl_at_19: "fl (211 / 756) = 5027828155424205 / 18014398509481984"
  using fl_in_binade [of "- 2" "211 / 756"]
  by (simp add: round_ties_even_def power_int_minus)

lemma fl_at_20: "fl (316753173791724915 / 281474976710656) = 2474634170247851 / 2199023255552"
  using fl_in_binade [of 10 "316753173791724915 / 281474976710656"]
  by (simp add: round_ties_even_def power_int_minus)

lemma fl_at_21: "fl (950259521375174745 / 1125899906842624) = 7423902510743553 / 8796093022208"
  using fl_in_binade [of 9 "950259521375174745 / 1125899906842624"]
  by (simp add: round_ties_even_def power_int_minus)

lemma fl_at_22: "fl (1466015503701 / 2199023255552) = 1466015503701 / 2199023255552"
  using fl_in_binade [of "- 1" "1466015503701 / 2199023255552"]
  by (simp add: round_ties_even_def power_int_minus)

lemma fl_at_23: "fl (1466015503701 / 4398046511104) = 1466015503701 / 4398046511104"
  using fl_in_binade [of "- 2" "1466015503701 / 4398046511104"]
  by (simp add: round_ties_even_def power_int_minus)

lemma fl_at_24: "fl (- (1 / 8796093022208)) = - (1 / 8796093022208)"
  using fl_in_binade [of "- 43" "- (1 / 8796093022208)"]
  by (simp add: round_ties_even_def power_int_minus)

lemma fl_at_25: "fl (- (1 / 17592186044416)) = - (1 / 17592186044416)"
  using fl_in_binade [of "- 44" "- (1 / 17592186044416)"]
  by (simp add: round_ties_even_def power_int_minus)










lemma aspectFitRect_scenario:
  "aspectFitRect \<lparr>width = 4000, height = 3000\<rparr> \<lparr>width = 800, height = 600\<rparr>
     = \<lparr>origin = (0, 0), rect_size = \<lparr>width = 800, height = 600\<rparr>\<rparr>"
  by (simp add: aspectFitRect_def fl_zero fl_at_1 fl_at_2 fl_at_3)

lemma calculateAspectRatioFit_scenario:
  "calculateAspectRatioFit 4000 3000 800 600 = \<lparr>width = 800, height = 600\<rparr>"
  by (simp add: calculateAspectRatioFit_def Math_round_def fl_at_1 fl_at_2 fl_at_3)

lemma aspectFitRect_small:
  "aspectFitRect \<lparr>width = 3, height = 2\<rparr> \<lparr>width = 2, height = 2\<rparr>
     = \<lparr>origin = (0, 3002399751580331 / 9007199254740992),
        rect_size = \<lparr>width = 2, height = 6004799503160661 / 4503599627370496\<rparr>\<rparr>"
  by (simp add: aspectFitRect_def fl_zero fl_at_4 fl_at_5 fl_at_6 fl_at_7 fl_at_8 fl_at_9)

lemma calculateAspectRatioFit_small:
  "calculateAspectRatioFit 3 2 2 2 = \<lparr>width = 2, height = 1\<rparr>"
  by (simp add: calculateAspectRatioFit_def Math_round_def fl_at_4 fl_at_5 fl_at_6 fl_at_7)

lemma calculateAspectRatioFit_ties:
  "calculateAspectRatioFit 6 27 13 59 = \<lparr>width = 13, height = 58\<rparr>"
  "calculateAspectRatioFit 4032 3024 306 362 = \<lparr>width = 306, height = 229\<rparr>"
  by (simp_all add: calculateAspectRatioFit_def Math_round_def
      fl_at_10 fl_at_11 fl_at_12 fl_at_13 fl_at_14 fl_at_15 fl_at_16 fl_at_17)

lemma aspectFitRect_photo:
  "aspectFitRect \<lparr>width = 4032, height = 3024\<rparr> \<lparr>width = 1126, height = 844\<rparr>
     = \<lparr>origin = (1466015503701 / 4398046511104, - (1 / 17592186044416)),
        rect_size = \<lparr>width = 2474634170247851 / 2199023255552,
                      height = 7423902510743553 / 8796093022208\<rparr>\<rparr>"
  by (simp add: aspectFitRect_def fl_zero
      fl_at_18 fl_at_19 fl_at_20 fl_at_21 fl_at_22 fl_at_23 fl_at_24 fl_at_25)



section \<open>Aspect fit\<close>

lemma Math_round_near: "\<bar>Math_round v - v\<bar> \<le> 1 / 2"
  unfolding Math_round_def by linarith

lemma ordinary_size_pos: "ordinary_size sz \<Longrightarrow> 0 < width sz \<and> 0 < height sz"
proof -
  assume "ordinary_size sz"
  then have "1 / 2 ^ 200 \<le> width sz" "1 / 2 ^ 200 \<le> height sz"
    by (simp_all add: ordinary_size_def)
  moreover have "(0::real) < 1 / 2 ^ 200" by simp
  ultimately show ?thesis by linarith
qed

text \<open>The scaled length along one axis: \<open>x\<close> and \<open>m\<close> are image and container lengths
  on this axis, \<open>x'\<close> and \<open>m'\<close> those on the other axis.\<close>

lemma scaled_length:
  assumes "0 < x" "0 < m" "0 < x'" "0 < m'"
  shows "\<bar>fl (x * min (fl (m / x)) (fl (m' / x'))) - x * min (m / x) (m' / x')\<bar>
           \<le> 3 * unit_roundoff * (x * min (m / x) (m' / x'))"
    and "0 < fl (x * min (fl (m / x)) (fl (m' / x')))"
    and "x * min (m / x) (m' / x') \<le> m"
    and "0 < x * min (m / x) (m' / x')"
    and "fl (x * min (fl (m / x)) (fl (m' / x'))) \<le> 2 * m"
proof -
  let ?exact = "min (m / x) (m' / x')"
  let ?scale = "min (fl (m / x)) (fl (m' / x'))"
  have q: "0 < m / x" "0 < m' / x'" using assms by simp_all
  then have s0: "0 < ?exact" by simp
  have lo: "(1 - unit_roundoff) * ?exact \<le> ?scale" and hi: "?scale \<le> (1 + unit_roundoff) * ?exact"
    using min_fl [OF q] by simp_all
  show near: "\<bar>fl (x * ?scale) - x * ?exact\<bar> \<le> 3 * unit_roundoff * (x * ?exact)"
    using fl_scaled [OF assms(1) s0 lo hi] .
  have "0 < (1 - unit_roundoff) * ?exact"
    using s0 unit_roundoff_small by simp
  then have "0 < ?scale" using lo by linarith
  then have "0 < x * ?scale" using assms(1) by simp
  then show "0 < fl (x * ?scale)" by (rule fl_pos)
  have "x * ?exact \<le> x * (m / x)"
    using assms(1) by (intro mult_left_mono) simp_all
  then show fits: "x * ?exact \<le> m" using assms(1) by simp
  show pos: "0 < x * ?exact" using assms(1) s0 by simp
  have "3 * unit_roundoff * (x * ?exact) \<le> 1 * (x * ?exact)"
    using pos by (intro mult_right_mono) (simp_all add: unit_roundoff_def)
  then show "fl (x * ?scale) \<le> 2 * m"
    using near fits by (simp add: abs_le_iff)
qed

text \<open>The origin along one axis.\<close>

lemma centred_origin:
  assumes "0 < w" "w \<le> 2 * m"
  shows "\<bar>fl (fl (m - w) / 2) + w / 2 - m / 2\<bar> \<le> 2 * unit_roundoff * m"
    and "\<bar>fl (fl (m - w) / 2)\<bar> \<le> m"
proof -
  have m: "0 < m" using assms by linarith
  have d: "\<bar>m - w\<bar> \<le> m" using assms by (simp add: abs_le_iff)
  have h: "\<bar>fl (fl (m - w) / 2) - (m - w) / 2\<bar> \<le> 3 * unit_roundoff * m / 2"
    using halved_difference [OF d] .
  have "3 * unit_roundoff * m / 2 \<le> 2 * unit_roundoff * m"
    using m unit_roundoff_small by simp
  then show "\<bar>fl (fl (m - w) / 2) + w / 2 - m / 2\<bar> \<le> 2 * unit_roundoff * m"
    using h by (simp add: abs_le_iff field_simps)
  have "3 * unit_roundoff * m / 2 \<le> m / 2"
    using m by (simp add: unit_roundoff_def)
  then show "\<bar>fl (fl (m - w) / 2)\<bar> \<le> m"
    using h d by (simp add: abs_le_iff field_simps)
qed

text \<open>
  C7, as the code has it. For image and container sizes of ordinary magnitude,
  \<open>aspectFitRect\<close> returns the image size scaled by the smaller of the two ratios
  container width over image width and container height over image height, with no error
  beyond that of the roundings: at most three units of roundoff, relatively, on each
  side, and the centre of the rectangle is the centre of the container within two units
  of roundoff of the container's length. \<open>calculateAspectRatioFit\<close> uses the same scale
  but returns a size only, each dimension rounded to an integer by \<open>Math.round\<close>, so
  within one half (and the same roundings) of the scaled value. For an image of 4000 by
  3000 in a container of 800 by 600 both give exactly the size 800 by 600, and the
  rectangle has the origin (0, 0).
\<close>

theorem aspect_fit_exact_or_rounded:
  assumes "ordinary_size imageSize" "ordinary_size container"
  shows
  "\<bar>width (rect_size (aspectFitRect imageSize container))
      - width imageSize * min (width container / width imageSize) (height container / height imageSize)\<bar>
     \<le> 3 * unit_roundoff
         * (width imageSize * min (width container / width imageSize) (height container / height imageSize))
   \<and> \<bar>height (rect_size (aspectFitRect imageSize container))
      - height imageSize * min (width container / width imageSize) (height container / height imageSize)\<bar>
     \<le> 3 * unit_roundoff
         * (height imageSize * min (width container / width imageSize) (height container / height imageSize))
   \<and> \<bar>fst (origin (aspectFitRect imageSize container))
        + width (rect_size (aspectFitRect imageSize container)) / 2 - width container / 2\<bar>
     \<le> 2 * unit_roundoff * width container
   \<and> \<bar>snd (origin (aspectFitRect imageSize container))
        + height (rect_size (aspectFitRect imageSize container)) / 2 - height container / 2\<bar>
     \<le> 2 * unit_roundoff * height container
   \<and> (\<exists>n :: int. width (calculateAspectRatioFit (width imageSize) (height imageSize)
                        (width container) (height container)) = of_int n)
   \<and> (\<exists>n :: int. height (calculateAspectRatioFit (width imageSize) (height imageSize)
                        (width container) (height container)) = of_int n)
   \<and> \<bar>width (calculateAspectRatioFit (width imageSize) (height imageSize) (width container) (height container))
        - width imageSize * min (width container / width imageSize) (height container / height imageSize)\<bar>
     \<le> 1 / 2 + 3 * unit_roundoff
         * (width imageSize * min (width container / width imageSize) (height container / height imageSize))
   \<and> \<bar>height (calculateAspectRatioFit (width imageSize) (height imageSize) (width container) (height container))
        - height imageSize * min (width container / width imageSize) (height container / height imageSize)\<bar>
     \<le> 1 / 2 + 3 * unit_roundoff
         * (height imageSize * min (width container / width imageSize) (height container / height imageSize))
   \<and> aspectFitRect \<lparr>width = 4000, height = 3000\<rparr> \<lparr>width = 800, height = 600\<rparr>
      = \<lparr>origin = (0, 0), rect_size = \<lparr>width = 800, height = 600\<rparr>\<rparr>
   \<and> calculateAspectRatioFit 4000 3000 800 600 = \<lparr>width = 800, height = 600\<rparr>"
proof -
  let ?iw = "width imageSize" and ?ih = "height imageSize"
  let ?cw = "width container" and ?ch = "height container"
  let ?exact = "min (?cw / ?iw) (?ch / ?ih)"
  let ?scale = "min (fl (?cw / ?iw)) (fl (?ch / ?ih))"
  let ?r = "aspectFitRect imageSize container"
  have p: "0 < ?iw" "0 < ?ih" "0 < ?cw" "0 < ?ch"
    using ordinary_size_pos assms by blast+
  have sw: "min (?ch / ?ih) (?cw / ?iw) = ?exact" "min (fl (?ch / ?ih)) (fl (?cw / ?iw)) = ?scale"
    by (simp_all add: min.commute)
  have w: "width (rect_size ?r) = fl (?iw * ?scale)" and h: "height (rect_size ?r) = fl (?ih * ?scale)"
    and ox: "fst (origin ?r) = fl (fl (?cw - fl (?iw * ?scale)) / 2)"
    and oy: "snd (origin ?r) = fl (fl (?ch - fl (?ih * ?scale)) / 2)"
    by (simp_all add: aspectFitRect_def Let_def)
  have tw: "width (calculateAspectRatioFit ?iw ?ih ?cw ?ch) = Math_round (fl (?iw * ?scale))"
    and th: "height (calculateAspectRatioFit ?iw ?ih ?cw ?ch) = Math_round (fl (?ih * ?scale))"
    by (simp_all add: calculateAspectRatioFit_def Let_def)
  have nw: "\<bar>fl (?iw * ?scale) - ?iw * ?exact\<bar> \<le> 3 * unit_roundoff * (?iw * ?exact)"
    and pw: "0 < fl (?iw * ?scale)" and bw: "fl (?iw * ?scale) \<le> 2 * ?cw"
    using scaled_length [OF p(1) p(3) p(2) p(4)] by simp_all
  have nh: "\<bar>fl (?ih * ?scale) - ?ih * ?exact\<bar> \<le> 3 * unit_roundoff * (?ih * ?exact)"
    and ph: "0 < fl (?ih * ?scale)" and bh: "fl (?ih * ?scale) \<le> 2 * ?ch"
    using scaled_length [OF p(2) p(4) p(1) p(3)] unfolding sw by simp_all
  have c1: "\<bar>fst (origin ?r) + width (rect_size ?r) / 2 - ?cw / 2\<bar> \<le> 2 * unit_roundoff * ?cw"
    unfolding ox w using centred_origin(1) [OF pw bw] .
  have c2: "\<bar>snd (origin ?r) + height (rect_size ?r) / 2 - ?ch / 2\<bar> \<le> 2 * unit_roundoff * ?ch"
    unfolding oy h using centred_origin(1) [OF ph bh] .
  have i1: "\<exists>n :: int. width (calculateAspectRatioFit ?iw ?ih ?cw ?ch) = of_int n"
    and i2: "\<exists>n :: int. height (calculateAspectRatioFit ?iw ?ih ?cw ?ch) = of_int n"
    unfolding tw th Math_round_def by blast+
  have r1: "\<bar>width (calculateAspectRatioFit ?iw ?ih ?cw ?ch) - ?iw * ?exact\<bar>
              \<le> 1 / 2 + 3 * unit_roundoff * (?iw * ?exact)"
    unfolding tw using Math_round_near [of "fl (?iw * ?scale)"] nw by linarith
  have r2: "\<bar>height (calculateAspectRatioFit ?iw ?ih ?cw ?ch) - ?ih * ?exact\<bar>
              \<le> 1 / 2 + 3 * unit_roundoff * (?ih * ?exact)"
    unfolding th using Math_round_near [of "fl (?ih * ?scale)"] nh by linarith
  show ?thesis
    using nw [folded w] nh [folded h] c1 c2 i1 i2 r1 r2
      aspectFitRect_scenario calculateAspectRatioFit_scenario
    by blast
qed

text \<open>
  C7 as stated fails for \<open>calculateAspectRatioFit\<close>: an image of 3 by 2 in a container
  of 2 by 2 has the scale 2/3 and the scaled height 4/3, and the height returned is 1,
  one third away from it.
\<close>

theorem aspect_fit_exact_or_rounded_counterexample:
  "height (calculateAspectRatioFit 3 2 2 2) = 1
   \<and> \<bar>height (calculateAspectRatioFit 3 2 2 2) - 2 * min (2 / 3) (2 / 2)\<bar> = 1 / 3"
  by (simp add: calculateAspectRatioFit_small)

theorem aspect_fit_exact_or_rounded_witness:
  "ordinary_size \<lparr>width = 3, height = 2\<rparr> \<and> ordinary_size \<lparr>width = 2, height = 2\<rparr>
   \<and> height (rect_size (aspectFitRect \<lparr>width = 3, height = 2\<rparr> \<lparr>width = 2, height = 2\<rparr>))
       = 6004799503160661 / 4503599627370496
   \<and> \<bar>6004799503160661 / 4503599627370496 - 2 * min (2 / 3) (2 / 2)\<bar>
       \<le> 3 * unit_roundoff * (2 * min (2 / 3) (2 / 2))
   \<and> height (calculateAspectRatioFit 3 2 2 2) = 1
   \<and> \<bar>1 - 2 * min (2 / 3) (2 / 2)\<bar> \<le> 1 / 2 + 3 * unit_roundoff * (2 * min (2 / 3) (2 / 2))"
  using aspect_fit_exact_or_rounded [of "\<lparr>width = 3, height = 2\<rparr>" "\<lparr>width = 2, height = 2\<rparr>"]
  by (simp add: ordinary_size_def aspectFitRect_small calculateAspectRatioFit_small)


section \<open>View space to image space and back\<close>





section \<open>Direction of the displacement in the bulge shader\<close>

lemma vec_length_horizontal: "vec_length (a, 0) = \<bar>a\<bar>"
  by (simp add: vec_length_def)

lemma bulge_main_inside:
  assumes "fst resolution \<noteq> 0" "snd resolution \<noteq> 0"
    and "vec_length (vec_sub center (vec_mul uv resolution)) < radius"
  shows "vec_mul (bulge_main center radius strength resolution uv) resolution
     = (let p = vec_mul uv resolution;
            d = vec_sub p center;
            t = vec_length d / radius
        in (fst p + fst d * bulge_amount strength t, snd p + snd d * bulge_amount strength t))"
proof -
  define p where "p = vec_mul uv resolution"
  define a where "a = bulge_amount strength (vec_length (vec_sub center p) / radius)"
  have sym: "vec_length (vec_sub p center) = vec_length (vec_sub center p)"
    by (simp add: vec_length_def vec_sub_def algebra_simps)
  have undiv: "vec_mul (vec_div q resolution) resolution = q" for q
    using assms(1,2) by (simp add: vec_mul_def vec_div_def)
  have "bulge_main center radius strength resolution uv
          = vec_div (vec_sub p (vec_scale (vec_sub center p) a)) resolution"
    using assms(3) by (simp add: bulge_main_def Let_def p_def a_def)
  then have "vec_mul (bulge_main center radius strength resolution uv) resolution
          = vec_sub p (vec_scale (vec_sub center p) a)"
    by (simp only: undiv)
  also have "\<dots> = (fst p + fst (vec_sub p center) * a, snd p + snd (vec_sub p center) * a)"
    by (simp add: vec_sub_def vec_scale_def algebra_simps)
  finally show ?thesis
    by (simp add: Let_def sym [unfolded p_def] p_def a_def)
qed

lemma bulge_main_outside:
  assumes "fst resolution \<noteq> 0" "snd resolution \<noteq> 0"
    and "\<not> vec_length (vec_sub center (vec_mul uv resolution)) < radius"
  shows "bulge_main center radius strength resolution uv = uv"
  using assms by (simp add: bulge_main_def Let_def vec_mul_def vec_div_def)

text \<open>
  C8. With centre (100, 100), radius 50, strength 1/2 and the fragment at pixel
  (110, 100) of a 200 by 200 image, the distance is 10, \<open>t\<close> is 1/5 and the amount is
  8/25. The shader samples at (110 + 10 * 8/25, 100), away from the centre, where the
  claimed coordinate \<open>p - d * amount\<close> with \<open>d = p - center\<close> is (110 - 10 * 8/25, 100).
\<close>

theorem bulge_sign_at_input:
  "bulge_main (100, 100) 50 (1 / 2) (200, 200) (11 / 20, 1 / 2) = (283 / 500, 1 / 2)
   \<and> vec_mul (bulge_main (100, 100) 50 (1 / 2) (200, 200) (11 / 20, 1 / 2)) (200, 200)
        = (110 + 10 * (8 / 25), 100)
   \<and> vec_mul (bulge_main (100, 100) 50 (1 / 2) (200, 200) (11 / 20, 1 / 2)) (200, 200)
        \<noteq> (110 - 10 * (8 / 25), 100)"
  by (simp add: bulge_main_def vec_mul_def vec_sub_def vec_div_def vec_scale_def
      vec_length_horizontal bulge_amount_def)


end
